theory Spec2Isabelle
  imports Complex_Main
begin

section \<open>Batched query execution (helpers-enhanced)\<close>

text \<open>
  The module drives a caller-supplied asynchronous lookup \<open>queryFn\<close> over fixed-size
  batches of an id array. In the embedding
  \<^item> the numbers of the options are integers (\<open>int\<close>): the source does not validate
    them, so zero and negative values are inputs like any other;
  \<^item> the strategy is the string that reaches the function at run time; the declared
    values are \<open>''auto''\<close>, \<open>''parallel''\<close> and \<open>''sequential''\<close>, and any other string falls
    into the \<open>default\<close> branch of the switch;
  \<^item> \<open>queryFn\<close> maps a batch to the value its promise settles with: \<open>Inl\<close> a rejection
    reason, \<open>Inr\<close> the rows (every promise of \<open>queryFn\<close> is taken to settle);
  \<^item> an asynchronous function returns a run: the trace of what it did to \<open>queryFn\<close> and
    the value its own promise settles with;
  \<^item> a loop of the source that may run forever is a partial function into \<open>option\<close>:
    \<open>None\<close> means that the loop does not terminate and the call never settles.
\<close>

subsection \<open>Constants\<close>

definition BATCH_SIZE :: int where
  "BATCH_SIZE = 2000"

definition DEFAULT_MAX_POOL_SIZE :: int where
  "DEFAULT_MAX_POOL_SIZE = 10"

subsection \<open>Array.prototype.slice on integer arguments\<close>

text \<open>
  A negative index counts from the end of the array, every index is clamped to
  \<open>0 .. length\<close>, and an end before the start gives the empty array.
\<close>

definition relativeIndex :: "nat \<Rightarrow> int \<Rightarrow> nat" where
  "relativeIndex len k = (if k < 0 then nat (max (int len + k) 0) else nat (min k (int len)))"

definition array_slice :: "'a list \<Rightarrow> int \<Rightarrow> int \<Rightarrow> 'a list" where
  "array_slice xs start fin =
     (let k = relativeIndex (length xs) start;
          final = relativeIndex (length xs) fin
      in take (final - k) (drop k xs))"

subsection \<open>Events and runs\<close>

datatype executor = ExecuteParallel | ExecuteSequential | ExecuteChunkedParallel

datatype 't event =
    Invoke "'t list"
  | Settle "'t list"
  | Call executor

type_synonym ('t, 'e, 'u) run = "'t event list \<times> ('e + 'u list)"

text \<open>
  \<open>Invoke b\<close>: \<open>queryFn\<close> is called on the batch \<open>b\<close>; \<open>Settle b\<close>: the promise of that
  call settles; \<open>Call x\<close>: the orchestrator enters one of its three executors.
  \<open>invoked\<close> lists the batches handed to \<open>queryFn\<close>, in the order of the calls;
  \<open>peakInFlight n\<close> is the largest number of unsettled invocations along a trace that
  starts with \<open>n\<close> of them; \<open>entered\<close> lists the executors entered; \<open>observable\<close>
  is what a caller sees of a run: the traffic on \<open>queryFn\<close> and the outcome.
\<close>

fun invoked :: "'t event list \<Rightarrow> 't list list" where
  "invoked [] = []"
| "invoked (Invoke b # es) = b # invoked es"
| "invoked (Settle b # es) = invoked es"
| "invoked (Call x # es) = invoked es"

fun peakInFlight :: "nat \<Rightarrow> 't event list \<Rightarrow> nat" where
  "peakInFlight n [] = n"
| "peakInFlight n (Invoke b # es) = max n (peakInFlight (Suc n) es)"
| "peakInFlight n (Settle b # es) = max n (peakInFlight (n - 1) es)"
| "peakInFlight n (Call x # es) = peakInFlight n es"

fun entered :: "'t event list \<Rightarrow> executor list" where
  "entered [] = []"
| "entered (Invoke b # es) = entered es"
| "entered (Settle b # es) = entered es"
| "entered (Call x # es) = x # entered es"



subsection \<open>The batching loop\<close>

partial_function (option) splitBatches ::
  "'t list \<Rightarrow> int \<Rightarrow> int \<Rightarrow> 't list list \<Rightarrow> 't list list option" where
  "splitBatches ids batchSize i batches =
     (if i < int (length ids)
      then splitBatches ids batchSize (i + batchSize)
             (batches @ [array_slice ids i (i + batchSize)])
      else Some batches)"

declare splitBatches.simps [code]

subsection \<open>Promise.all over a mapped array\<close>

text \<open>
  \<open>Promise.all(chunk.map(queryFn))\<close> calls \<open>queryFn\<close> on every element before anything
  is awaited. The promises then settle in an order the orchestrator does not control:
  \<open>latency\<close> gives the completion time of the invocation on the batch with a given index,
  and the promises settle by increasing completion time. The join rejects with the
  reason of the first promise that settles rejected, and otherwise fulfils with the
  values in array order.
\<close>

definition settleOrder :: "(nat \<Rightarrow> nat) \<Rightarrow> nat \<Rightarrow> 'a list \<Rightarrow> (nat \<times> 'a) list" where
  "settleOrder latency off ps = sort_key (\<lambda>(j, p). latency (off + j)) (enumerate 0 ps)"

definition promiseAllMap ::
  "(nat \<Rightarrow> nat) \<Rightarrow> nat \<Rightarrow> 't list list \<Rightarrow> ('t list \<Rightarrow> 'e + 'u list)
     \<Rightarrow> 't event list \<times> ('e + 'u list list)" where
  "promiseAllMap latency off chunk queryFn =
     (let promises = map (\<lambda>b. (b, queryFn b)) chunk;
          settled = settleOrder latency off promises
      in (map Invoke chunk @ map (\<lambda>(j, b, out). Settle b) settled,
          case find (\<lambda>(j, b, out). isl out) settled of
            Some (j, b, out) \<Rightarrow> Inl (projl out)
          | None \<Rightarrow> Inr (map (\<lambda>(b, out). projr out) promises)))"

subsection \<open>The three executors\<close>

definition executeParallel ::
  "'t list list \<Rightarrow> ('t list \<Rightarrow> 'e + 'u list) \<Rightarrow> (nat \<Rightarrow> nat) \<Rightarrow> ('t, 'e, 'u) run" where
  "executeParallel batches queryFn latency =
     (case promiseAllMap latency 0 batches queryFn of
        (tr, Inl e) \<Rightarrow> (tr, Inl e)
      | (tr, Inr batchResults) \<Rightarrow> (tr, Inr (concat batchResults)))"

fun executeSequential_loop ::
  "'t list list \<Rightarrow> ('t list \<Rightarrow> 'e + 'u list) \<Rightarrow> 't event list \<Rightarrow> 'u list \<Rightarrow> ('t, 'e, 'u) run" where
  "executeSequential_loop [] queryFn tr results = (tr, Inr results)"
| "executeSequential_loop (batch # rest) queryFn tr results =
     (case queryFn batch of
        Inl e \<Rightarrow> (tr @ [Invoke batch, Settle batch], Inl e)
      | Inr batchResults \<Rightarrow>
          executeSequential_loop rest queryFn (tr @ [Invoke batch, Settle batch])
            (results @ batchResults))"

definition executeSequential ::
  "'t list list \<Rightarrow> ('t list \<Rightarrow> 'e + 'u list) \<Rightarrow> ('t, 'e, 'u) run" where
  "executeSequential batches queryFn = executeSequential_loop batches queryFn [] []"

partial_function (option) executeChunkedParallel_loop ::
  "'t list list \<Rightarrow> ('t list \<Rightarrow> 'e + 'u list) \<Rightarrow> int \<Rightarrow> (nat \<Rightarrow> nat) \<Rightarrow> int
     \<Rightarrow> 't event list \<Rightarrow> 'u list \<Rightarrow> ('t, 'e, 'u) run option" where
  "executeChunkedParallel_loop batches queryFn maxConcurrent latency i tr results =
     (if i < int (length batches)
      then (case promiseAllMap latency (relativeIndex (length batches) i)
                   (array_slice batches i (i + maxConcurrent)) queryFn of
              (tr', Inl e) \<Rightarrow> Some (tr @ tr', Inl e)
            | (tr', Inr chunkResults) \<Rightarrow>
                executeChunkedParallel_loop batches queryFn maxConcurrent latency
                  (i + maxConcurrent) (tr @ tr') (results @ concat chunkResults))
      else Some (tr, Inr results))"

declare executeChunkedParallel_loop.simps [code]

definition executeChunkedParallel ::
  "'t list list \<Rightarrow> ('t list \<Rightarrow> 'e + 'u list) \<Rightarrow> int \<Rightarrow> (nat \<Rightarrow> nat)
     \<Rightarrow> ('t, 'e, 'u) run option" where
  "executeChunkedParallel batches queryFn maxConcurrent latency =
     executeChunkedParallel_loop batches queryFn maxConcurrent latency 0 [] []"

subsection \<open>executeBatchedQuerySmart\<close>

record options =
  batchSize :: "int option"
  maxConcurrent :: "int option"
  strategy :: "string option"

text \<open>The destructuring of \<open>options || {}\<close> with its three defaults.\<close>

definition optBatchSize :: "options option \<Rightarrow> int" where
  "optBatchSize opts = (case Option.bind opts batchSize of None \<Rightarrow> BATCH_SIZE | Some v \<Rightarrow> v)"

definition optMaxConcurrent :: "options option \<Rightarrow> int" where
  "optMaxConcurrent opts =
     (case Option.bind opts maxConcurrent of None \<Rightarrow> DEFAULT_MAX_POOL_SIZE | Some v \<Rightarrow> v)"

definition optStrategy :: "options option \<Rightarrow> string" where
  "optStrategy opts = (case Option.bind opts strategy of None \<Rightarrow> ''auto'' | Some v \<Rightarrow> v)"

text \<open>The value of the variable \<open>executionStrategy\<close> when the switch is reached.\<close>

definition executionStrategy :: "string \<Rightarrow> nat \<Rightarrow> int \<Rightarrow> string" where
  "executionStrategy strat nBatches maxConc =
     (if strat = ''auto''
      then (if int nBatches \<le> maxConc then ''parallel'' else ''sequential'')
      else strat)"

definition entering :: "executor \<Rightarrow> ('t, 'e, 'u) run \<Rightarrow> ('t, 'e, 'u) run" where
  "entering x r = (Call x # fst r, snd r)"

definition executeBatchedQuerySmart ::
  "'t list \<Rightarrow> ('t list \<Rightarrow> 'e + 'u list) \<Rightarrow> options option \<Rightarrow> (nat \<Rightarrow> nat)
     \<Rightarrow> ('t, 'e, 'u) run option" where
  "executeBatchedQuerySmart ids queryFn opts latency =
     (let bSize = optBatchSize opts;
          maxConc = optMaxConcurrent opts;
          strat = optStrategy opts
      in if length ids = 0 then Some ([], Inr [])
         else if int (length ids) \<le> bSize then Some ([Invoke ids, Settle ids], queryFn ids)
         else (case splitBatches ids bSize 0 [] of
                 None \<Rightarrow> None
               | Some batches \<Rightarrow>
                   (let es = executionStrategy strat (length batches) maxConc
                    in if es = ''parallel''
                       then Some (entering ExecuteParallel
                                    (executeParallel batches queryFn latency))
                       else if es = ''sequential''
                       then Some (entering ExecuteSequential
                                    (executeSequential batches queryFn))
                       else map_option (entering ExecuteChunkedParallel)
                              (executeChunkedParallel batches queryFn maxConc latency))))"

text \<open>
  The chunks that a call derives from its input, in the order in which it derives them:
  none for the empty input, the input itself on the single-batch path, and the result of
  the batching loop otherwise.
\<close>

definition chunksOf :: "'t list \<Rightarrow> int \<Rightarrow> 't list list option" where
  "chunksOf ids bSize =
     (if length ids = 0 then Some []
      else if int (length ids) \<le> bSize then Some [ids]
      else splitBatches ids bSize 0 [])"

subsection \<open>The wrappers and the stand-alone parallel variant\<close>


definition executeBatchedQuerySequential ::
  "'t list \<Rightarrow> ('t list \<Rightarrow> 'e + 'u list) \<Rightarrow> (nat \<Rightarrow> nat) \<Rightarrow> ('t, 'e, 'u) run option" where
  "executeBatchedQuerySequential ids queryFn latency =
     executeBatchedQuerySmart ids queryFn
       (Some \<lparr>batchSize = None, maxConcurrent = None, strategy = Some ''sequential''\<rparr>) latency"



subsection \<open>Sample lookups and completion orders for the concrete checks\<close>

text \<open>
  \<open>echoQuery\<close> fulfils with one row per id; \<open>failOnFive\<close> rejects every batch that
  holds the id 5 and \<open>failOnOdd\<close> every batch that starts with an odd id, the reason
  naming the batch. Under \<open>inOrder\<close> the invocations settle in the order in which
  they were started, under \<open>lastFirst\<close> in the opposite order.
\<close>

definition echoQuery :: "nat list \<Rightarrow> nat list + nat list" where
  "echoQuery b = Inr (map (\<lambda>x. 10 * x) b)"

definition failOnFive :: "nat list \<Rightarrow> nat list + nat list" where
  "failOnFive b = (if 5 \<in> set b then Inl b else Inr (map (\<lambda>x. 10 * x) b))"

definition failOnOdd :: "nat list \<Rightarrow> nat list + nat list" where
  "failOnOdd b =
     (case b of
        [] \<Rightarrow> Inr []
      | x # xs \<Rightarrow> if odd x then Inl b else Inr (map (\<lambda>x. 10 * x) b))"

definition inOrder :: "nat \<Rightarrow> nat" where
  "inOrder i = i"

definition lastFirst :: "nat \<Rightarrow> nat" where
  "lastFirst i = 100 - i"

definition withOptions :: "int \<Rightarrow> int \<Rightarrow> string \<Rightarrow> options option" where
  "withOptions b m s = Some \<lparr>batchSize = Some b, maxConcurrent = Some m, strategy = Some s\<rparr>"

section \<open>Properties of the batching loop\<close>

lemma array_slice_step:
  assumes "0 < s" "i < length ids"
  shows "array_slice ids (int i) (int i + int s) = take s (drop i ids)"
proof -
  have k: "relativeIndex (length ids) (int i) = i"
    using assms by (simp add: relativeIndex_def)
  have f: "relativeIndex (length ids) (int i + int s) = min (i + s) (length ids)"
    unfolding relativeIndex_def by (simp add: nat_add_distrib min_def)
  have "take (min (i + s) (length ids) - i) (drop i ids) = take s (drop i ids)"
    using assms by (cases "i + s \<le> length ids") (simp_all add: min_def)
  then show ?thesis
    by (simp add: array_slice_def k f)
qed

lemma ceil_step:
  fixes s :: nat
  assumes "0 < s" "i < n"
  shows "(n - i + s - 1) div s = Suc ((n - (i + s) + s - 1) div s)"
proof -
  define x where "x = n - (i + s) + s - 1"
  define y where "y = n - i + s - 1"
  have "y div s = Suc (x div s)"
  proof (cases "i + s \<le> n")
    case True
    then have "y = x + s" using assms unfolding x_def y_def by linarith
    moreover have "(x + s) div s = Suc (x div s)"
      using assms div_add_self2 [of s x] by linarith
    ultimately show ?thesis by (simp only:)
  next
    case False
    then have "x < s" "s \<le> y" "y < s + s"
      using assms unfolding x_def y_def by linarith+
    then have "x div s = 0" "y div s = 1"
      by (simp_all add: div_nat_eqI)
    then show ?thesis by simp
  qed
  then show ?thesis
    unfolding x_def y_def .
qed

lemma splitBatches_from:
  assumes "0 < s"
  shows "splitBatches ids (int s) (int i) acc =
           Some (acc @ map (\<lambda>j. take s (drop (i + j * s) ids)) [0..<(length ids - i + s - 1) div s])"
proof (induction "length ids - i" arbitrary: i acc rule: less_induct)
  case less
  show ?case
  proof (cases "i < length ids")
    case True
    let ?m = "(length ids - (i + s) + s - 1) div s"
    have m: "length ids - (i + s) < length ids - i" using True assms by simp
    have "splitBatches ids (int s) (int i) acc =
            splitBatches ids (int s) (int (i + s)) (acc @ [take s (drop i ids)])"
      using True assms by (subst splitBatches.simps) (simp add: array_slice_step)
    also have "\<dots> = Some ((acc @ [take s (drop i ids)]) @
                   map (\<lambda>j. take s (drop (i + s + j * s) ids)) [0..<?m])"
      by (rule less.hyps [OF m])
    also have "\<dots> = Some (acc @ map (\<lambda>j. take s (drop (i + j * s) ids)) [0..<Suc ?m])"
      by (simp add: map_upt_Suc add.assoc del: upt_Suc)
    finally show ?thesis by (simp only: ceil_step [OF assms True])
  next
    case False
    then have "(length ids - i + s - 1) div s = 0" using assms by simp
    with False show ?thesis by (subst splitBatches.simps) simp
  qed
qed



lemma ceiling_nat_div:
  fixes s n :: nat
  assumes "0 < s"
  shows "\<lceil>real n / real s\<rceil> = int ((n + s - 1) div s)"
proof (rule ceiling_unique)
  let ?c = "(n + s - 1) div s"
  have up: "n \<le> ?c * s"
  proof -
    have "n + s - 1 = ?c * s + (n + s - 1) mod s" by simp
    moreover have "(n + s - 1) mod s \<le> s - 1" using assms by (simp add: less_Suc_eq_le [symmetric] Suc_pred)
    ultimately show ?thesis using assms by linarith
  qed
  have lo: "?c * s < n + s"
  proof -
    have "?c * s \<le> n + s - 1" by simp
    then show ?thesis using assms by linarith
  qed
  show "real n / real s \<le> of_int (int ?c)"
    using up assms by (simp add: pos_divide_le_eq flip: of_nat_mult)
  have "real (?c * s) < real (n + s)" using lo by (simp only: of_nat_less_iff)
  then have "(real ?c - 1) * real s < real n"
    by (simp add: algebra_simps)
  moreover have "0 < real s" using assms by simp
  ultimately have "real ?c - 1 < real n / real s"
    by (simp only: pos_less_divide_eq)
  then show "of_int (int ?c) - 1 < real n / real s" by simp
qed

lemma concat_chunks_from:
  assumes "0 < s"
  shows "concat (map (\<lambda>j. take s (drop (i + j * s) ids)) [0..<(length ids - i + s - 1) div s]) = drop i ids"
proof (induction "length ids - i" arbitrary: i rule: less_induct)
  case less
  show ?case
  proof (cases "i < length ids")
    case True
    let ?m = "(length ids - (i + s) + s - 1) div s"
    have m: "length ids - (i + s) < length ids - i" using True assms by simp
    have "concat (map (\<lambda>j. take s (drop (i + j * s) ids)) [0..<Suc ?m]) =
            take s (drop i ids) @ concat (map (\<lambda>j. take s (drop (i + s + j * s) ids)) [0..<?m])"
      by (simp add: map_upt_Suc add.assoc del: upt_Suc)
    also have "\<dots> = take s (drop i ids) @ drop (i + s) ids"
      by (simp only: less.hyps [OF m])
    also have "\<dots> = drop i ids"
      by (metis add.commute append_take_drop_id drop_drop)
    finally show ?thesis by (simp only: ceil_step [OF assms True])
  next
    case False
    then have "(length ids - i + s - 1) div s = 0" using assms by simp
    with False show ?thesis by simp
  qed
qed

lemma splitBatches_pos:
  assumes "0 < S"
  shows "splitBatches ids S 0 [] =
           Some (map (\<lambda>j. take (nat S) (drop (j * nat S) ids))
                   [0..<(length ids + nat S - 1) div nat S])"
proof -
  have s: "0 < nat S" "S = int (nat S)" using assms by simp_all
  show ?thesis
    using splitBatches_from [OF s(1), of ids 0 "[]"] s(2) by simp
qed

lemma full_chunk:
  fixes s n j :: nat
  assumes "0 < s" "Suc j < (n + s - 1) div s"
  shows "j * s + s \<le> n"
proof -
  have "Suc (Suc j) \<le> (n + s - 1) div s" using assms(2) by simp
  then have "Suc (Suc j) * s \<le> ((n + s - 1) div s) * s" by (rule mult_le_mono1)
  also have "\<dots> \<le> n + s - 1" by simp
  finally have "j * s + s + s \<le> n + s - 1" by (simp add: algebra_simps)
  then show ?thesis using assms(1) by linarith
qed

section \<open>Properties of the executors\<close>

lemma executeSequential_loop_ok:
  "\<forall>b \<in> set bs. \<not> isl (q b) \<Longrightarrow>
   executeSequential_loop bs q tr results =
     (tr @ concat (map (\<lambda>b. [Invoke b, Settle b]) bs),
      Inr (results @ concat (map (\<lambda>b. projr (q b)) bs)))"
proof (induction bs arbitrary: tr results)
  case Nil
  then show ?case by simp
next
  case (Cons b bs)
  then obtain v where v: "q b = Inr v" by (cases "q b") auto
  with Cons show ?case by simp
qed

lemma executeSequential_loop_reject:
  "i < length bs \<Longrightarrow> q (bs ! i) = Inl e \<Longrightarrow> \<forall>j < i. \<not> isl (q (bs ! j)) \<Longrightarrow>
   executeSequential_loop bs q tr results =
     (tr @ concat (map (\<lambda>b. [Invoke b, Settle b]) (take (Suc i) bs)), Inl e)"
proof (induction bs arbitrary: tr results i)
  case Nil
  then show ?case by simp
next
  case (Cons b bs)
  show ?case
  proof (cases i)
    case 0
    with Cons.prems show ?thesis by simp
  next
    case (Suc k)
    with Cons.prems have "\<not> isl (q b)" by auto
    then obtain v where v: "q b = Inr v" by (cases "q b") auto
    have k: "k < length bs" "q (bs ! k) = Inl e" "\<forall>j < k. \<not> isl (q (bs ! j))"
      using Cons.prems Suc by auto
    show ?thesis
      using Cons.IH [OF k] v Suc by simp
  qed
qed

lemma first_reject:
  "\<exists>b \<in> set bs. isl (q b) \<Longrightarrow>
   \<exists>i < length bs. isl (q (bs ! i)) \<and> (\<forall>j < i. \<not> isl (q (bs ! j)))"
proof (induction bs)
  case Nil
  then show ?case by simp
next
  case (Cons b bs)
  show ?case
  proof (cases "isl (q b)")
    case True
    then have "0 < length (b # bs) \<and> isl (q ((b # bs) ! 0)) \<and> (\<forall>j < 0. \<not> isl (q ((b # bs) ! j)))"
      by simp
    then show ?thesis by blast
  next
    case False
    with Cons.prems have "\<exists>b \<in> set bs. isl (q b)" by auto
    from Cons.IH [OF this] obtain i where
      i: "i < length bs" "isl (q (bs ! i))" "\<forall>j < i. \<not> isl (q (bs ! j))" by blast
    have "\<forall>j < Suc i. \<not> isl (q ((b # bs) ! j))"
    proof (intro allI impI)
      fix j assume "j < Suc i"
      then show "\<not> isl (q ((b # bs) ! j))"
        using False i(3) by (cases j) auto
    qed
    with i(1,2) have "Suc i < length (b # bs) \<and> isl (q ((b # bs) ! Suc i)) \<and>
        (\<forall>j < Suc i. \<not> isl (q ((b # bs) ! j)))" by simp
    then show ?thesis by blast
  qed
qed

lemma peakInFlight_append_pairs:
  "peakInFlight n (concat (map (\<lambda>b. [Invoke b, Settle b]) bs)) = (if bs = [] then n else Suc n)"
  by (induction bs) auto












lemma executeSequential_ok:
  "\<forall>b \<in> set bs. \<not> isl (q b) \<Longrightarrow>
   executeSequential bs q =
     (concat (map (\<lambda>b. [Invoke b, Settle b]) bs), Inr (concat (map (\<lambda>b. projr (q b)) bs)))"
  using executeSequential_loop_ok [of bs q "[]" "[]"] by (simp add: executeSequential_def)

lemma executeSequential_reject:
  "i < length bs \<Longrightarrow> q (bs ! i) = Inl e \<Longrightarrow> \<forall>j < i. \<not> isl (q (bs ! j)) \<Longrightarrow>
   executeSequential bs q = (concat (map (\<lambda>b. [Invoke b, Settle b]) (take (Suc i) bs)), Inl e)"
  using executeSequential_loop_reject [of i bs q e "[]" "[]"] by (simp add: executeSequential_def)

lemma executeSequential_first_reject:
  assumes "\<exists>b \<in> set bs. isl (q b)"
  shows "\<exists>i < length bs. (\<forall>j < i. \<not> isl (q (bs ! j))) \<and> isl (q (bs ! i)) \<and>
           executeSequential bs q =
             (concat (map (\<lambda>b. [Invoke b, Settle b]) (take (Suc i) bs)), Inl (projl (q (bs ! i))))"
proof -
  from first_reject [OF assms] obtain i where
    i: "i < length bs" "isl (q (bs ! i))" "\<forall>j < i. \<not> isl (q (bs ! j))" by blast
  then have "q (bs ! i) = Inl (projl (q (bs ! i)))" by (cases "q (bs ! i)") auto
  from executeSequential_reject [OF i(1) this i(3)] i show ?thesis by blast
qed





lemma entered_append: "entered (xs @ ys) = entered xs @ entered ys"
  by (induction xs rule: entered.induct) auto

lemma entered_pairs: "entered (concat (map (\<lambda>b. [Invoke b, Settle b]) bs)) = []"
  by (induction bs) auto

lemma entered_map_Invoke: "entered (map Invoke bs) = []"
  by (induction bs) auto

lemma entered_map_Settle: "entered (map (\<lambda>(j, b, out). Settle b) xs) = []"
  by (induction xs) auto

lemma promiseAllMap_entered: "entered (fst (promiseAllMap latency off chunk q)) = []"
  by (simp add: promiseAllMap_def Let_def entered_append entered_map_Invoke entered_map_Settle)

lemma executeParallel_entered: "entered (fst (executeParallel bs q latency)) = []"
  using promiseAllMap_entered [of latency 0 bs q]
  by (cases "promiseAllMap latency 0 bs q") (auto simp: executeParallel_def split: sum.splits)

lemma executeSequential_loop_entered:
  "entered (fst (executeSequential_loop bs q tr results)) = entered tr"
  by (induction bs arbitrary: tr results) (auto simp: entered_append split: sum.splits)

lemma executeSequential_entered: "entered (fst (executeSequential bs q)) = []"
  by (simp add: executeSequential_def executeSequential_loop_entered)

section \<open>Properties of executeBatchedQuerySmart\<close>

lemma declared_executionStrategy:
  "strat \<in> {''auto'', ''parallel'', ''sequential''} \<Longrightarrow>
   executionStrategy strat n maxConc = ''parallel'' \<or> executionStrategy strat n maxConc = ''sequential''"
  by (auto simp: executionStrategy_def)

lemma smart_empty: "executeBatchedQuerySmart [] q opts latency = Some ([], Inr [])"
  by (simp add: executeBatchedQuerySmart_def)

lemma smart_single:
  "ids \<noteq> [] \<Longrightarrow> int (length ids) \<le> optBatchSize opts \<Longrightarrow>
   executeBatchedQuerySmart ids q opts latency = Some ([Invoke ids, Settle ids], q ids)"
  by (simp add: executeBatchedQuerySmart_def)

lemma smart_batched:
  "ids \<noteq> [] \<Longrightarrow> \<not> int (length ids) \<le> optBatchSize opts \<Longrightarrow>
   splitBatches ids (optBatchSize opts) 0 [] = Some batches \<Longrightarrow>
   executeBatchedQuerySmart ids q opts latency =
     (if executionStrategy (optStrategy opts) (length batches) (optMaxConcurrent opts) = ''parallel''
      then Some (entering ExecuteParallel (executeParallel batches q latency))
      else if executionStrategy (optStrategy opts) (length batches) (optMaxConcurrent opts) = ''sequential''
      then Some (entering ExecuteSequential (executeSequential batches q))
      else map_option (entering ExecuteChunkedParallel)
             (executeChunkedParallel batches q (optMaxConcurrent opts) latency))"
  by (simp add: executeBatchedQuerySmart_def Let_def)


lemma chunksOf_cases:
  assumes "chunksOf ids bSize = Some batches"
  obtains (empty) "ids = []" "batches = []"
  | (single) "ids \<noteq> []" "int (length ids) \<le> bSize" "batches = [ids]"
  | (batched) "ids \<noteq> []" "\<not> int (length ids) \<le> bSize" "splitBatches ids bSize 0 [] = Some batches"
  using assms by (auto simp: chunksOf_def split: if_splits)



lemma smart_entered:
  assumes d: "optStrategy opts \<in> {''auto'', ''parallel'', ''sequential''}"
    and r: "executeBatchedQuerySmart ids q opts latency = Some (tr, res)"
  shows "entered tr = [] \<or> entered tr = [ExecuteParallel] \<or> entered tr = [ExecuteSequential]"
proof (cases "ids = [] \<or> int (length ids) \<le> optBatchSize opts")
  case True
  with r show ?thesis
    by (cases "ids = []") (auto simp: smart_empty smart_single)
next
  case False
  then have n: "ids \<noteq> []" "\<not> int (length ids) \<le> optBatchSize opts" by auto
  from r n obtain batches where b: "splitBatches ids (optBatchSize opts) 0 [] = Some batches"
    by (cases "splitBatches ids (optBatchSize opts) 0 []")
       (auto simp: executeBatchedQuerySmart_def Let_def)
  let ?es = "executionStrategy (optStrategy opts) (length batches) (optMaxConcurrent opts)"
  from declared_executionStrategy [OF d] consider "?es = ''parallel''" | "?es = ''sequential''"
    by blast
  then show ?thesis
  proof cases
    case 1
    with r smart_batched [OF n b, of q latency]
    have "tr = Call ExecuteParallel # fst (executeParallel batches q latency)"
      by (simp add: entering_def)
    then show ?thesis by (simp add: executeParallel_entered)
  next
    case 2
    with r smart_batched [OF n b, of q latency]
    have "tr = Call ExecuteSequential # fst (executeSequential batches q)"
      by (simp add: entering_def)
    then show ?thesis by (simp add: executeSequential_entered)
  qed
qed

lemma smart_None:
  assumes d: "optStrategy opts \<in> {''auto'', ''parallel'', ''sequential''}"
    and r: "executeBatchedQuerySmart ids q opts latency = None"
  shows "ids \<noteq> [] \<and> \<not> int (length ids) \<le> optBatchSize opts \<and>
         splitBatches ids (optBatchSize opts) 0 [] = None"
proof -
  have n: "ids \<noteq> []" "\<not> int (length ids) \<le> optBatchSize opts"
    using r by (auto simp: executeBatchedQuerySmart_def Let_def split: if_splits)
  have "splitBatches ids (optBatchSize opts) 0 [] = None"
  proof (cases "splitBatches ids (optBatchSize opts) 0 []")
    case None
    then show ?thesis .
  next
    case (Some batches)
    from declared_executionStrategy [OF d, of "length batches" "optMaxConcurrent opts"]
      smart_batched [OF n Some, of q latency] r
    show ?thesis by auto
  qed
  with n show ?thesis by simp
qed


lemma chunksOf_batched:
  assumes "chunksOf ids bSize = Some batches" "1 < length batches"
  shows "ids \<noteq> [] \<and> \<not> int (length ids) \<le> bSize \<and> splitBatches ids bSize 0 [] = Some batches"
  using assms(1)
proof (cases rule: chunksOf_cases)
  case empty
  with assms(2) show ?thesis by simp
next
  case single
  with assms(2) show ?thesis by simp
next
  case batched
  then show ?thesis by simp
qed

lemma executeSequential_trace:
  "\<exists>k \<le> length bs. fst (executeSequential bs q) = concat (map (\<lambda>b. [Invoke b, Settle b]) (take k bs))"
proof (cases "\<exists>b \<in> set bs. isl (q b)")
  case True
  from executeSequential_first_reject [OF True] obtain i where
    "i < length bs" "executeSequential bs q =
       (concat (map (\<lambda>b. [Invoke b, Settle b]) (take (Suc i) bs)), Inl (projl (q (bs ! i))))"
    by blast
  then have "Suc i \<le> length bs \<and>
     fst (executeSequential bs q) = concat (map (\<lambda>b. [Invoke b, Settle b]) (take (Suc i) bs))"
    by simp
  then show ?thesis by blast
next
  case False
  then have "\<forall>b \<in> set bs. \<not> isl (q b)" by blast
  from executeSequential_ok [OF this]
  have "length bs \<le> length bs \<and>
     fst (executeSequential bs q) = concat (map (\<lambda>b. [Invoke b, Settle b]) (take (length bs) bs))"
    by simp
  then show ?thesis by blast
qed

lemma smart_auto_overflow:
  assumes a: "optStrategy opts = ''auto''"
    and c: "chunksOf ids (optBatchSize opts) = Some batches"
    and m: "1 < length batches" "optMaxConcurrent opts < int (length batches)"
  shows "executeBatchedQuerySmart ids q opts latency =
           Some (entering ExecuteSequential (executeSequential batches q))"
proof -
  from chunksOf_batched [OF c m(1)] have
    b: "ids \<noteq> []" "\<not> int (length ids) \<le> optBatchSize opts"
       "splitBatches ids (optBatchSize opts) 0 [] = Some batches" by simp_all
  have "executionStrategy (optStrategy opts) (length batches) (optMaxConcurrent opts) = ''sequential''"
    using a m(2) by (simp add: executionStrategy_def)
  with smart_batched [OF b, of q latency] show ?thesis by simp
qed




section \<open>Concrete runs\<close>

text \<open>The equations that evaluate a call on a concrete input.\<close>

lemmas run_simps = executeBatchedQuerySmart_def optBatchSize_def optMaxConcurrent_def
  optStrategy_def withOptions_def executionStrategy_def splitBatches.simps array_slice_def
  relativeIndex_def entering_def executeSequential_def executeParallel_def promiseAllMap_def
  settleOrder_def echoQuery_def failOnFive_def failOnOdd_def inOrder_def lastFirst_def Let_def
  executeChunkedParallel_def executeChunkedParallel_loop.simps enumerate_eq_zip chunksOf_def

section \<open>Order of the output\<close>



section \<open>The auto strategy beyond the concurrency ceiling\<close>




section \<open>The batching step\<close>

text \<open>
  C3. For every input and every positive batch size \<open>S\<close> the batching loop terminates
  with a list of chunks whose length is the ceiling of the input length divided by \<open>S\<close>;
  the chunk with index \<open>j\<close> is the \<open>S\<close> items of the input from position \<open>j * S\<close> on (fewer
  at the end of the input), so the chunks are contiguous; every chunk but the last has
  exactly \<open>S\<close> items; and the chunks concatenated in order are the input. This holds for
  inputs of every length, in particular for the inputs longer than \<open>S\<close> on which
  \<open>executeBatchedQuerySmart\<close> reaches the loop.
\<close>

theorem batching_partitions_input:
  assumes "0 < S"
  shows "\<exists>batches. splitBatches ids S 0 [] = Some batches
           \<and> int (length batches) = \<lceil>real (length ids) / real_of_int S\<rceil>
           \<and> (\<forall>j < length batches. batches ! j = take (nat S) (drop (j * nat S) ids))
           \<and> (\<forall>j. Suc j < length batches \<longrightarrow> int (length (batches ! j)) = S)
           \<and> concat batches = ids"
proof -
  let ?s = "nat S"
  let ?c = "(length ids + ?s - 1) div ?s"
  let ?bs = "map (\<lambda>j. take ?s (drop (j * ?s) ids)) [0..<?c]"
  have s: "0 < ?s" using assms by simp
  have S: "real_of_int S = real ?s" using assms by simp
  have "splitBatches ids S 0 [] = Some ?bs"
    using assms by (rule splitBatches_pos)
  moreover have "int (length ?bs) = \<lceil>real (length ids) / real_of_int S\<rceil>"
    by (simp only: S ceiling_nat_div [OF s]) simp
  moreover have "\<forall>j < length ?bs. ?bs ! j = take ?s (drop (j * ?s) ids)"
    by simp
  moreover have "\<forall>j. Suc j < length ?bs \<longrightarrow> int (length (?bs ! j)) = S"
  proof (intro allI impI)
    fix j assume j: "Suc j < length ?bs"
    then have "Suc j < ?c" by simp
    from full_chunk [OF s this] have "j * ?s + ?s \<le> length ids" .
    then have "length (take ?s (drop (j * ?s) ids)) = ?s" by simp
    moreover have "?bs ! j = take ?s (drop (j * ?s) ids)" using j by simp
    ultimately show "int (length (?bs ! j)) = S" using assms by simp
  qed
  moreover have "concat ?bs = ids"
    using concat_chunks_from [OF s, of 0 ids] by simp
  ultimately show ?thesis by blast
qed

text \<open>Seven ids in batches of three: three chunks, of 3, 3 and 1 items.\<close>

theorem batching_partitions_input_witness:
  "(0 :: int) < 3
   \<and> splitBatches [1, 2, 3, 4, 5, 6, 7 :: nat] 3 0 [] = Some [[1, 2, 3], [4, 5, 6], [7]]
   \<and> int (length [[1, 2, 3], [4, 5, 6], [7 :: nat]]) = \<lceil>real (length [1, 2, 3, 4, 5, 6, 7 :: nat]) / real_of_int 3\<rceil>
   \<and> concat [[1, 2, 3], [4, 5, 6], [7 :: nat]] = [1, 2, 3, 4, 5, 6, 7]"
proof -
  have h: "(0 :: int) < 3" by simp
  have v: "splitBatches [1, 2, 3, 4, 5, 6, 7 :: nat] 3 0 [] = Some [[1, 2, 3], [4, 5, 6], [7]]"
    by (simp add: splitBatches.simps array_slice_def relativeIndex_def)
  from batching_partitions_input [OF h, of "[1, 2, 3, 4, 5, 6, 7 :: nat]"] v h
  show ?thesis by auto
qed

section \<open>Invocations in flight\<close>

text \<open>
  C4. Under the auto strategy, whenever the number of chunks derived from the input
  exceeds \<open>maxConcurrent\<close> (a positive number, as the configuration requires), the call
  settles and at no point of its run is more than one invocation of the lookup
  unsettled, hence never more than \<open>maxConcurrent\<close>.
\<close>

theorem auto_overflow_in_flight_bound:
  assumes "optStrategy opts = ''auto''"
    and "chunksOf ids (optBatchSize opts) = Some batches"
    and "optMaxConcurrent opts < int (length batches)"
    and "0 < optMaxConcurrent opts"
  shows "\<exists>tr res. executeBatchedQuerySmart ids queryFn opts latency = Some (tr, res)
           \<and> peakInFlight 0 tr \<le> 1
           \<and> int (peakInFlight 0 tr) \<le> optMaxConcurrent opts"
proof -
  have m: "1 < length batches" using assms(3,4) by linarith
  from executeSequential_trace [of batches queryFn] obtain k where
    k: "fst (executeSequential batches queryFn)
          = concat (map (\<lambda>b. [Invoke b, Settle b]) (take k batches))" by blast
  have "peakInFlight 0 (Call ExecuteSequential # fst (executeSequential batches queryFn)) \<le> 1"
    by (simp add: k peakInFlight_append_pairs)
  moreover have "executeBatchedQuerySmart ids queryFn opts latency
      = Some (Call ExecuteSequential # fst (executeSequential batches queryFn),
              snd (executeSequential batches queryFn))"
    using smart_auto_overflow [OF assms(1,2) m assms(3), of queryFn latency]
    by (simp add: entering_def)
  ultimately show ?thesis using assms(4) by auto
qed

theorem auto_overflow_in_flight_bound_witness:
  "optStrategy (withOptions 1 2 ''auto'') = ''auto''
   \<and> chunksOf [1, 2, 3 :: nat] (optBatchSize (withOptions 1 2 ''auto'')) = Some [[1], [2], [3]]
   \<and> optMaxConcurrent (withOptions 1 2 ''auto'') < int (length [[1], [2], [3 :: nat]])
   \<and> 0 < optMaxConcurrent (withOptions 1 2 ''auto'')
   \<and> (\<exists>tr res. executeBatchedQuerySmart [1, 2, 3 :: nat] failOnFive (withOptions 1 2 ''auto'') lastFirst
                   = Some (tr, res)
         \<and> peakInFlight 0 tr \<le> 1
         \<and> int (peakInFlight 0 tr) \<le> optMaxConcurrent (withOptions 1 2 ''auto''))"
proof -
  have h1: "optStrategy (withOptions 1 2 ''auto'') = ''auto''"
    by (simp add: optStrategy_def withOptions_def)
  have h2: "chunksOf [1, 2, 3 :: nat] (optBatchSize (withOptions 1 2 ''auto'')) = Some [[1], [2], [3]]"
    by (simp add: run_simps)
  have h3: "optMaxConcurrent (withOptions 1 2 ''auto'') < int (length [[1], [2], [3 :: nat]])"
    by (simp add: optMaxConcurrent_def withOptions_def)
  have h4: "0 < optMaxConcurrent (withOptions 1 2 ''auto'')"
    by (simp add: optMaxConcurrent_def withOptions_def)
  from auto_overflow_in_flight_bound [OF h1 h2 h3 h4, of failOnFive lastFirst] h1 h2 h3 h4
  show ?thesis by blast
qed

section \<open>Rejections\<close>



section \<open>Configuration values that are not positive\<close>




section \<open>The single-batch path and the empty input\<close>

text \<open>
  C7 (as the code has it). Whenever the input is not empty and no longer than
  \<open>batchSize\<close>, the call invokes the lookup exactly once, on the whole input, whatever
  the strategy and \<open>maxConcurrent\<close> are, and settles as that invocation does.
\<close>

theorem single_batch_direct:
  assumes "ids \<noteq> []" and "int (length ids) \<le> optBatchSize opts"
  shows "executeBatchedQuerySmart ids queryFn opts latency
           = Some ([Invoke ids, Settle ids], queryFn ids)"
  using assms by (rule smart_single)

theorem single_batch_direct_witness:
  "[1, 2, 3 :: nat] \<noteq> []
   \<and> int (length [1, 2, 3 :: nat]) \<le> optBatchSize (withOptions 5 10 ''sequential'')
   \<and> executeBatchedQuerySmart [1, 2, 3] failOnFive (withOptions 5 10 ''sequential'') lastFirst
        = Some ([Invoke [1, 2, 3], Settle [1, 2, 3]], Inr [10, 20, 30])"
  using single_batch_direct [of "[1, 2, 3 :: nat]" "withOptions 5 10 ''sequential''" failOnFive lastFirst]
  by (simp add: optBatchSize_def withOptions_def failOnFive_def)

text \<open>
  The empty input is no longer than the default batch size, and the lookup is not
  invoked on it.
\<close>

theorem fast_path_empty_counterexample:
  "int (length ([] :: nat list)) \<le> optBatchSize None
   \<and> executeBatchedQuerySmart ([] :: nat list) echoQuery None inOrder = Some ([], Inr [])
   \<and> invoked (fst (the (executeBatchedQuerySmart ([] :: nat list) echoQuery None inOrder))) = []
   \<and> executeBatchedQuerySmart ([] :: nat list) echoQuery None inOrder
        \<noteq> Some ([Invoke [], Settle []], echoQuery [])"
  by (simp add: optBatchSize_def BATCH_SIZE_def executeBatchedQuerySmart_def)

text \<open>
  C8. For every lookup and all options the call on the empty input resolves to the
  empty output, and its trace is empty: the lookup is not invoked.
\<close>

theorem empty_input_resolves_empty:
  "executeBatchedQuerySmart [] queryFn opts latency = Some ([], Inr [])"
  by (simp add: smart_empty)

section \<open>The chunked-parallel branch\<close>

text \<open>
  C9. When the strategy option is one of auto, parallel and sequential, the variable
  \<open>executionStrategy\<close> holds parallel or sequential at the switch, whatever the number
  of batches; no run of the call enters \<open>executeChunkedParallel\<close>; and a call that never
  settles is one whose batching loop does not terminate, before the switch.
\<close>

theorem chunked_parallel_unreachable:
  assumes "optStrategy opts \<in> {''auto'', ''parallel'', ''sequential''}"
  shows "(executionStrategy (optStrategy opts) n (optMaxConcurrent opts) = ''parallel''
          \<or> executionStrategy (optStrategy opts) n (optMaxConcurrent opts) = ''sequential'')
       \<and> (\<forall>tr res. executeBatchedQuerySmart ids queryFn opts latency = Some (tr, res)
             \<longrightarrow> ExecuteChunkedParallel \<notin> set (entered tr))
       \<and> (executeBatchedQuerySmart ids queryFn opts latency = None
             \<longrightarrow> splitBatches ids (optBatchSize opts) 0 [] = None)"
proof (intro conjI allI impI)
  show "executionStrategy (optStrategy opts) n (optMaxConcurrent opts) = ''parallel''
          \<or> executionStrategy (optStrategy opts) n (optMaxConcurrent opts) = ''sequential''"
    using assms by (rule declared_executionStrategy)
next
  fix tr res
  assume "executeBatchedQuerySmart ids queryFn opts latency = Some (tr, res)"
  from smart_entered [OF assms this] show "ExecuteChunkedParallel \<notin> set (entered tr)" by auto
next
  assume "executeBatchedQuerySmart ids queryFn opts latency = None"
  from smart_None [OF assms this] show "splitBatches ids (optBatchSize opts) 0 [] = None" by simp
qed

text \<open>Twelve chunks under auto with the default ceiling of ten: the sequential executor.\<close>

theorem chunked_parallel_unreachable_witness:
  "optStrategy (Some \<lparr>batchSize = Some 1, maxConcurrent = None, strategy = None\<rparr>)
     \<in> {''auto'', ''parallel'', ''sequential''}
   \<and> executionStrategy (optStrategy (Some \<lparr>batchSize = Some 1, maxConcurrent = None, strategy = None\<rparr>))
        12 (optMaxConcurrent (Some \<lparr>batchSize = Some 1, maxConcurrent = None, strategy = None\<rparr>))
       = ''sequential''
   \<and> entered (fst (the (executeBatchedQuerySmart [1, 2, 3, 4, 5, 6, 7, 8, 9, 10, 11, 12 :: nat] echoQuery
                          (Some \<lparr>batchSize = Some 1, maxConcurrent = None, strategy = None\<rparr>) inOrder)))
       = [ExecuteSequential]
   \<and> ExecuteChunkedParallel \<notin> set (entered (fst (the
         (executeBatchedQuerySmart [1, 2, 3, 4, 5, 6, 7, 8, 9, 10, 11, 12 :: nat] echoQuery
            (Some \<lparr>batchSize = Some 1, maxConcurrent = None, strategy = None\<rparr>) inOrder))))"
proof -
  let ?opts = "Some \<lparr>batchSize = Some 1, maxConcurrent = None, strategy = None\<rparr>"
  let ?run = "executeBatchedQuerySmart [1, 2, 3, 4, 5, 6, 7, 8, 9, 10, 11, 12 :: nat] echoQuery ?opts inOrder"
  have h: "optStrategy ?opts \<in> {''auto'', ''parallel'', ''sequential''}"
    by (simp add: optStrategy_def)
  have e: "executionStrategy (optStrategy ?opts) 12 (optMaxConcurrent ?opts) = ''sequential''"
    by (simp add: optStrategy_def optMaxConcurrent_def executionStrategy_def DEFAULT_MAX_POOL_SIZE_def)
  have v: "entered (fst (the ?run)) = [ExecuteSequential]"
    by (simp add: run_simps DEFAULT_MAX_POOL_SIZE_def)
  have s: "?run = Some (fst (the ?run), snd (the ?run))"
    by (simp add: run_simps DEFAULT_MAX_POOL_SIZE_def)
  from chunked_parallel_unreachable [OF h, of 12 "[1, 2, 3, 4, 5, 6, 7, 8, 9, 10, 11, 12 :: nat]" echoQuery inOrder] s
  have "ExecuteChunkedParallel \<notin> set (entered (fst (the ?run)))" by blast
  with h e v show ?thesis by blast
qed

section \<open>The stand-alone parallel variant\<close>


end
